theory Spec2Isabelle
  imports Complex_Main "HOL-Library.Log_Nat" "HOL-Library.Sublist"
begin

section \<open>Python arithmetic used by the page calculator\<close>

text \<open>
  \<^verbatim>\<open>calculate_pages_needed\<close> computes \<^verbatim>\<open>ceil(start / 50)\<close>. In Python 3 the operator
  \<^verbatim>\<open>/\<close> on two ints is true division: its value is the binary64 float nearest to the
  exact quotient (ties to even), and it raises \<^verbatim>\<open>OverflowError\<close> when that float would
  not be finite. \<^verbatim>\<open>math.ceil\<close> then returns the exact integer ceiling of the float.
  A finite float is kept as a mantissa and a binary exponent, so every step is exact
  integer arithmetic.
\<close>

datatype py_error =
    OverflowError | ZeroDivisionError | ValueError | TypeError | AttributeError | BadRequest

datatype pyfloat = PyFloat (mant: int) (expo: int)

text \<open>The integer nearest to \<open>n / d\<close> for \<open>d > 0\<close>, a tie going to the even neighbour.\<close>

definition round_half_even :: "int \<Rightarrow> int \<Rightarrow> int" where
  "round_half_even n d =
     (let q = n div d; r = n mod d
      in if 2 * r < d then q
         else if d < 2 * r then q + 1
         else if even q then q else q + 1)"

text \<open>\<open>\<lfloor>log\<^sub>2 (n / d)\<rfloor>\<close> for positive \<open>n\<close> and \<open>d\<close>, from the bit lengths.\<close>

definition quot_log2 :: "int \<Rightarrow> int \<Rightarrow> int" where
  "quot_log2 n d =
     (let s = bitlen n - bitlen d
      in if (if 0 \<le> s then d * 2 ^ nat s \<le> n else d \<le> n * 2 ^ nat (- s)) then s else s - 1)"

text \<open>
  \<^verbatim>\<open>a / b\<close> on ints: the quotient is scaled to a 53-bit mantissa (exponent at least
  \<open>-1074\<close>, where the subnormal floats lie), rounded once, and refused when it reaches
  \<open>2 ^ 1024\<close>.
\<close>

definition int_true_divide :: "int \<Rightarrow> int \<Rightarrow> py_error + pyfloat" where
  "int_true_divide a b =
     (if b = 0 then Inl ZeroDivisionError
      else if a = 0 then Inr (PyFloat 0 0)
      else
        let n = \<bar>a\<bar>; d = \<bar>b\<bar>;
            e = max (quot_log2 n d - 52) (- 1074);
            m = (if 0 \<le> e then round_half_even n (d * 2 ^ nat e)
                 else round_half_even (n * 2 ^ nat (- e)) d)
        in if 0 \<le> e \<and> 2 ^ 1024 \<le> m * 2 ^ nat e then Inl OverflowError
           else Inr (PyFloat (if (a < 0) = (b < 0) then m else - m) e))"

text \<open>\<^verbatim>\<open>math.ceil\<close> of a finite float.\<close>

definition ceil :: "pyfloat \<Rightarrow> int" where
  "ceil x =
     (if 0 \<le> expo x then mant x * 2 ^ nat (expo x)
      else - ((- mant x) div 2 ^ nat (- expo x)))"

text \<open>
  Python's slice \<^verbatim>\<open>xs[i:j]\<close>: a negative index counts from the end, and both indices
  are clipped to the list.
\<close>

definition slice_index :: "nat \<Rightarrow> int \<Rightarrow> nat" where
  "slice_index n i = (if i < 0 then nat (max (i + int n) 0) else min (nat i) n)"

definition py_slice :: "'a list \<Rightarrow> int \<Rightarrow> int \<Rightarrow> 'a list" where
  "py_slice xs i j =
     (let a = slice_index (length xs) i; b = slice_index (length xs) j
      in take (b - a) (drop a xs))"

text \<open>\<^verbatim>\<open>str(n)\<close> for an int, as used by the f-strings that build the download name.\<close>

function digits :: "nat \<Rightarrow> string" where
  "digits n =
     (if n < 10 then [char_of (48 + n)]
      else digits (n div 10) @ [char_of (48 + n mod 10)])"
  by pat_completeness auto
termination
  by (relation "measure id") auto

definition str_int :: "int \<Rightarrow> string" where
  "str_int i = (if i < 0 then CHR ''-'' # digits (nat (- i)) else digits (nat i))"


section \<open>The data model: markup, fetcher, effects\<close>

text \<open>
  A page's markup is kept as the parser sees it. An anchor carries its visible text
  (\<^verbatim>\<open>get_text(strip=True)\<close>) and its \<^verbatim>\<open>href\<close> attribute when it has one; a table row
  is the list of its anchors in document order. Of a parsed page, the extractors read
  the rows of the body of the table with id \<^verbatim>\<open>channels\<close> (the table or its body may be
  missing) and the pagination list: absent, or present with the class list of its
  "next" control when there is one.
  A Python string is kept as the bytes of its UTF-8 encoding, so \<^verbatim>\<open>.encode('utf-8')\<close>
  and writing to a file opened with that encoding leave it as it is; the characters
  the extractors and the CSV writer test for are ASCII, one byte each.
\<close>

record anchor =
  a_text :: string
  a_href :: "string option"

type_synonym row = "anchor list"

record soup =
  channels_tbody :: "row list option option"
  pagination :: "string list option option"

datatype response = RequestException | Markup soup

text \<open>
  A URL is the base listing URL with the page query parameter, if any. The fetcher
  (\<^verbatim>\<open>requests.get\<close> followed by \<^verbatim>\<open>raise_for_status\<close>) is a function from URLs to
  responses. The effects of a run are the list of its fetches and politeness delays.
\<close>

type_synonym url = "string \<times> int option"

datatype event = Get url | Sleep

definition page_url :: "string \<Rightarrow> int \<Rightarrow> url" where
  "page_url base_url page_num = (if page_num = 1 then (base_url, None) else (base_url, Some page_num))"

definition is_get :: "event \<Rightarrow> bool" where
  "is_get ev = (case ev of Get u \<Rightarrow> True | Sleep \<Rightarrow> False)"

definition fetches :: "event list \<Rightarrow> url list" where
  "fetches evs = concat (map (\<lambda>ev. case ev of Get u \<Rightarrow> [u] | Sleep \<Rightarrow> []) evs)"

definition sleeps :: "event list \<Rightarrow> nat" where
  "sleeps evs = length (filter (\<lambda>ev. ev = Sleep) evs)"

definition has_href :: "anchor \<Rightarrow> bool" where
  "has_href link = (a_href link \<noteq> None)"

text \<open>\<^verbatim>\<open>link.get('href', '')\<close> and \<^verbatim>\<open>href.startswith('/')\<close>.\<close>

definition get_href :: "anchor \<Rightarrow> string" where
  "get_href link = (case a_href link of None \<Rightarrow> [] | Some h \<Rightarrow> h)"

definition startswith_slash :: "string \<Rightarrow> bool" where
  "startswith_slash s = (case s of [] \<Rightarrow> False | c # cs \<Rightarrow> c = CHR ''/'')"


section \<open>app.py: the page calculator and the range extractor\<close>

definition calculate_pages_needed :: "int \<Rightarrow> int \<Rightarrow> py_error + int list" where
  "calculate_pages_needed start end =
     (case int_true_divide start 50 of
        Inl err \<Rightarrow> Inl err
      | Inr x \<Rightarrow>
          (case int_true_divide end 50 of
             Inl err \<Rightarrow> Inl err
           | Inr y \<Rightarrow> (let start_page = ceil x; end_page = ceil y
                       in Inr [start_page..end_page])))"

text \<open>The inner loop over \<^verbatim>\<open>row.find_all('a', href=True)\<close>, with its \<^verbatim>\<open>break\<close>.\<close>

fun scan_links :: "string list \<Rightarrow> anchor list \<Rightarrow> string list" where
  "scan_links all_usernames [] = all_usernames"
| "scan_links all_usernames (link # links) =
     (let username = a_text link; href = get_href link
      in if username \<noteq> [] \<and> startswith_slash href \<and> username \<notin> set all_usernames
         then all_usernames @ [username]
         else scan_links all_usernames links)"

fun scan_rows :: "string list \<Rightarrow> row list \<Rightarrow> string list" where
  "scan_rows all_usernames [] = all_usernames"
| "scan_rows all_usernames (row # rows) =
     scan_rows (scan_links all_usernames (filter has_href row)) rows"

text \<open>
  One iteration of the loop over \<^verbatim>\<open>pages_needed\<close>: the three \<^verbatim>\<open>continue\<close> statements
  leave the iteration before \<^verbatim>\<open>time.sleep(1)\<close>.
\<close>

definition range_page :: "(url \<Rightarrow> response) \<Rightarrow> string \<Rightarrow> int \<Rightarrow> string list \<Rightarrow> string list \<times> event list" where
  "range_page fetch base_url page_num all_usernames =
     (let u = page_url base_url page_num
      in case fetch u of
           RequestException \<Rightarrow> (all_usernames, [Get u])
         | Markup sp \<Rightarrow>
             (case channels_tbody sp of
                None \<Rightarrow> (all_usernames, [Get u])
              | Some None \<Rightarrow> (all_usernames, [Get u])
              | Some (Some rows) \<Rightarrow> (scan_rows all_usernames rows, [Get u, Sleep])))"

fun range_pages :: "(url \<Rightarrow> response) \<Rightarrow> string \<Rightarrow> int list \<Rightarrow> string list \<Rightarrow> string list \<times> event list" where
  "range_pages fetch base_url [] all_usernames = (all_usernames, [])"
| "range_pages fetch base_url (page_num # pages) all_usernames =
     (let (acc, evs) = range_page fetch base_url page_num all_usernames;
          (res, evs') = range_pages fetch base_url pages acc
      in (res, evs @ evs'))"

definition listing_url :: string where
  "listing_url = ''https://twitchtracker.com/channels/most-followers''"

text \<open>\<^verbatim>\<open>if language:\<close> is false for \<^verbatim>\<open>None\<close> and for the empty string.\<close>

definition language_url :: "string option \<Rightarrow> string" where
  "language_url language =
     (case language of
        None \<Rightarrow> listing_url
      | Some l \<Rightarrow> if l = [] then listing_url else listing_url @ ''/'' @ l)"

text \<open>
  \<^verbatim>\<open>scrape_usernames_range\<close> returns the sliced list; the model returns with it the list
  accumulated before slicing and the effects of the run.
\<close>

record range_run =
  usernames_in_range :: "string list"
  accumulated :: "string list"
  range_events :: "event list"

definition scrape_usernames_range ::
  "(url \<Rightarrow> response) \<Rightarrow> int \<Rightarrow> int \<Rightarrow> string option \<Rightarrow> py_error + range_run" where
  "scrape_usernames_range fetch start end language =
     (case calculate_pages_needed start end of
        Inl err \<Rightarrow> Inl err
      | Inr pages_needed \<Rightarrow>
          (let (acc, evs) = range_pages fetch (language_url language) pages_needed [];
               start_idx = start - 1;
               end_idx = end
           in Inr \<lparr> usernames_in_range =
                      (if start_idx < int (length acc) then py_slice acc start_idx end_idx else []),
                    accumulated = acc,
                    range_events = evs \<rparr>))"


section \<open>The CSV writer\<close>

text \<open>
  \<^verbatim>\<open>csv.writer\<close> with its default dialect: fields are joined by commas, the row ends
  with CR LF, a field holding a comma, a double quote, CR or LF is enclosed in double
  quotes with every double quote doubled, and a row that is one empty field is written
  as two double quotes.
\<close>

definition dquote :: char where
  "dquote = CHR 0x22"

definition crlf :: string where
  "crlf = [CHR 0x0D, CHR 0x0A]"

definition needs_quoting :: "string \<Rightarrow> bool" where
  "needs_quoting s = list_ex (\<lambda>c. c = CHR '','' \<or> c = dquote \<or> c = CHR 0x0D \<or> c = CHR 0x0A) s"

definition csv_field :: "string \<Rightarrow> string" where
  "csv_field s =
     (if needs_quoting s
      then [dquote] @ concat (map (\<lambda>c. if c = dquote then [dquote, dquote] else [c]) s) @ [dquote]
      else s)"

fun join_fields :: "string list \<Rightarrow> string" where
  "join_fields [] = []"
| "join_fields [f] = f"
| "join_fields (f # g # fs) = f @ '','' @ join_fields (g # fs)"

definition writerow :: "string list \<Rightarrow> string" where
  "writerow cells =
     (if cells = [[]] then [dquote, dquote] else join_fields (map csv_field cells)) @ crlf"

text \<open>
  The header row, then the loop \<^verbatim>\<open>for username in usernames: writer.writerow([username])\<close>,
  each call appending to the output written so far.
\<close>

definition write_csv :: "string list \<Rightarrow> string" where
  "write_csv usernames =
     fold (\<lambda>username out. out @ writerow [username]) usernames (writerow [''twitch_username''])"


section \<open>scraper.py: the full extractor\<close>

text \<open>
  The loop over the rows of one page. Only the first anchor that has an \<^verbatim>\<open>href\<close>
  (\<^verbatim>\<open>row.find('a', href=True)\<close>) is looked at.
\<close>

fun full_rows :: "string list \<Rightarrow> string list \<Rightarrow> row list \<Rightarrow> string list \<times> string list" where
  "full_rows usernames page_usernames [] = (usernames, page_usernames)"
| "full_rows usernames page_usernames (row # rows) =
     (case find has_href row of
        None \<Rightarrow> full_rows usernames page_usernames rows
      | Some link \<Rightarrow>
          (let username = a_text link; href = get_href link
           in if username \<noteq> [] \<and> startswith_slash href \<and> username \<notin> set usernames
              then full_rows (usernames @ [username]) (page_usernames @ [username]) rows
              else full_rows usernames page_usernames rows))"

text \<open>The test after a page that gave new usernames: does the walk stop here?\<close>

definition walk_stops :: "soup \<Rightarrow> string list \<Rightarrow> bool" where
  "walk_stops sp page_usernames =
     (case pagination sp of
        Some next_button \<Rightarrow>
          (case next_button of None \<Rightarrow> True | Some classes \<Rightarrow> ''disabled'' \<in> set classes)
      | None \<Rightarrow> length page_usernames < 25)"

definition max_pages :: int where
  "max_pages = 100"

text \<open>
  The body of the \<^verbatim>\<open>while\<close> loop for the page at one URL, up to the point where the
  walk either leaves the loop (\<^verbatim>\<open>break\<close>) or goes on to the next page; both carry the
  accumulated list.
\<close>

datatype step = Break "string list" | Next_page "string list"

definition walk_page :: "(url \<Rightarrow> response) \<Rightarrow> url \<Rightarrow> string list \<Rightarrow> step" where
  "walk_page fetch u usernames =
     (case fetch u of
        RequestException \<Rightarrow> Break usernames
      | Markup sp \<Rightarrow>
          (case channels_tbody sp of
             None \<Rightarrow> Break usernames
           | Some None \<Rightarrow> Break usernames
           | Some (Some rows) \<Rightarrow>
               if rows = [] then Break usernames
               else
                 (let (usernames', page_usernames) = full_rows usernames [] rows
                  in if page_usernames = [] then Break usernames'
                     else if walk_stops sp page_usernames then Break usernames'
                     else Next_page usernames')))"

text \<open>
  The \<^verbatim>\<open>while page <= max_pages\<close> loop, from the given page and accumulated list: it
  returns the final list and the effects from here on. Going on to the next page is
  \<^verbatim>\<open>page += 1\<close> and \<^verbatim>\<open>time.sleep(1)\<close>.
\<close>

function walk :: "(url \<Rightarrow> response) \<Rightarrow> string \<Rightarrow> int \<Rightarrow> string list \<Rightarrow> string list \<times> event list" where
  "walk fetch base_url page usernames =
     (if page \<le> max_pages then
        (case walk_page fetch (page_url base_url page) usernames of
           Break res \<Rightarrow> (res, [Get (page_url base_url page)])
         | Next_page usernames' \<Rightarrow>
             (case walk fetch base_url (page + 1) usernames' of
                (res, evs) \<Rightarrow> (res, Get (page_url base_url page) # Sleep # evs)))
      else (usernames, []))"
  by pat_completeness auto
termination
  by (relation "measure (\<lambda>(fetch, base_url, page, usernames). nat (max_pages + 1 - page))") auto

text \<open>
  \<^verbatim>\<open>scrape_usernames\<close>: the walk from page 1, then the CSV file is written and the list
  returned.
\<close>

record full_run =
  returned :: "string list"
  csvfile :: "string \<times> string"
  full_events :: "event list"

definition scrape_usernames :: "(url \<Rightarrow> response) \<Rightarrow> string \<Rightarrow> string \<Rightarrow> full_run" where
  "scrape_usernames fetch base_url output_file =
     (let (usernames, evs) = walk fetch base_url 1 []
      in \<lparr> returned = usernames,
           csvfile = (output_file, write_csv usernames),
           full_events = evs \<rparr>)"


section \<open>app.py: the two service operations\<close>

text \<open>
  The JSON values a request field can hold. A number with a fraction or an exponent is
  a float, finite or not (the parser accepts \<^verbatim>\<open>Infinity\<close> and \<^verbatim>\<open>NaN\<close>); of arrays
  and objects only their kind matters here.
\<close>

datatype json =
    JNull | JBool bool | JInt int | JFloat pyfloat | JInfinity | JNaN | JStr string
  | JArray | JObject

text \<open>
  The three fields the operations read, each absent or a JSON value. The body of a
  request is such an object, or a JSON value that is not an object (\<^verbatim>\<open>request.json\<close>
  has no \<^verbatim>\<open>get\<close>), or not JSON at all (\<^verbatim>\<open>request.json\<close> raises).
\<close>

record range_fields =
  req_start :: "json option"
  req_end :: "json option"
  req_language :: "json option"

datatype request = Not_json | Not_object | Object range_fields

text \<open>
  The two string functions of the Python library the operations call: \<^verbatim>\<open>int\<close> on a
  string, which gives an integer or raises \<^verbatim>\<open>ValueError\<close>, and \<^verbatim>\<open>str.strip\<close>. The
  operations are modelled for any such pair.
\<close>

record library =
  str_to_int :: "string \<Rightarrow> int option"
  str_strip :: "string \<Rightarrow> string"

text \<open>\<^verbatim>\<open>int(x)\<close> on a float: the value with its fraction dropped.\<close>

definition float_trunc :: "pyfloat \<Rightarrow> int" where
  "float_trunc x =
     (if 0 \<le> expo x then mant x * 2 ^ nat (expo x)
      else sgn (mant x) * (\<bar>mant x\<bar> div 2 ^ nat (- expo x)))"

text \<open>\<^verbatim>\<open>int(x)\<close> on a JSON value, with the exception it raises.\<close>

definition py_int :: "library \<Rightarrow> json \<Rightarrow> py_error + int" where
  "py_int lib x =
     (case x of
        JInt i \<Rightarrow> Inr i
      | JBool b \<Rightarrow> Inr (if b then 1 else 0)
      | JFloat f \<Rightarrow> Inr (float_trunc f)
      | JInfinity \<Rightarrow> Inl OverflowError
      | JNaN \<Rightarrow> Inl ValueError
      | JStr s \<Rightarrow> (case str_to_int lib s of None \<Rightarrow> Inl ValueError | Some i \<Rightarrow> Inr i)
      | JNull \<Rightarrow> Inl TypeError
      | JArray \<Rightarrow> Inl TypeError
      | JObject \<Rightarrow> Inl TypeError)"

text \<open>\<^verbatim>\<open>x.strip()\<close> on a JSON value: only a string has the method.\<close>

definition py_strip :: "library \<Rightarrow> json \<Rightarrow> py_error + string" where
  "py_strip lib x = (case x of JStr s \<Rightarrow> Inr (str_strip lib s) | _ \<Rightarrow> Inl AttributeError)"

text \<open>\<^verbatim>\<open>d.get(key, default)\<close> for a field that is absent or present.\<close>

definition json_get :: "json option \<Rightarrow> json \<Rightarrow> json" where
  "json_get field dflt = (case field of None \<Rightarrow> dflt | Some v \<Rightarrow> v)"

text \<open>
  A response is a JSON body with its status, or a file attachment. The body of an
  error response holds a fixed message or \<^verbatim>\<open>str(e)\<close> of the exception caught.
\<close>

datatype body =
    ErrorBody string
  | ExceptionBody py_error
  | SuccessBody (json_success: bool) (json_count: nat) (json_usernames: "string list")

datatype http_response =
    Json (status: nat) (payload: body)
  | Attachment (content: string) (mimetype: string) (download_name: string)

text \<open>
  The first three statements of both operations, inside their \<^verbatim>\<open>try\<close>: start, end
  and language are read and converted in this order, before the range is looked at.
\<close>

definition read_range_request :: "library \<Rightarrow> request \<Rightarrow> py_error + (int \<times> int \<times> string option)" where
  "read_range_request lib req =
     (case req of
        Not_json \<Rightarrow> Inl BadRequest
      | Not_object \<Rightarrow> Inl AttributeError
      | Object flds \<Rightarrow>
          (case py_int lib (json_get (req_start flds) (JInt 1)) of
             Inl err \<Rightarrow> Inl err
           | Inr start \<Rightarrow>
               (case py_int lib (json_get (req_end flds) (JInt 50)) of
                  Inl err \<Rightarrow> Inl err
                | Inr end \<Rightarrow>
                    (case py_strip lib (json_get (req_language flds) (JStr [])) of
                       Inl err \<Rightarrow> Inl err
                     | Inr l \<Rightarrow> Inr (start, end, if l = [] then None else Some l)))))"

definition invalid_range :: http_response where
  "invalid_range = Json 400 (ErrorBody ''Invalid range. Start must be >= 1 and end must be >= start.'')"

definition scrape :: "library \<Rightarrow> (url \<Rightarrow> response) \<Rightarrow> request \<Rightarrow> http_response \<times> event list" where
  "scrape lib fetch req =
     (case read_range_request lib req of
        Inl err \<Rightarrow> (Json 500 (ExceptionBody err), [])
      | Inr (start, end, language) \<Rightarrow>
          if start < 1 \<or> end < start then (invalid_range, [])
          else
            (case scrape_usernames_range fetch start end language of
               Inl err \<Rightarrow> (Json 500 (ExceptionBody err), [])
             | Inr run \<Rightarrow>
                 (let usernames = usernames_in_range run
                  in (Json 200 (SuccessBody True (length usernames) usernames), range_events run))))"

definition download :: "library \<Rightarrow> (url \<Rightarrow> response) \<Rightarrow> request \<Rightarrow> http_response \<times> event list" where
  "download lib fetch req =
     (case read_range_request lib req of
        Inl err \<Rightarrow> (Json 500 (ExceptionBody err), [])
      | Inr (start, end, language) \<Rightarrow>
          if start < 1 \<or> end < start then (invalid_range, [])
          else
            (case scrape_usernames_range fetch start end language of
               Inl err \<Rightarrow> (Json 500 (ExceptionBody err), [])
             | Inr run \<Rightarrow>
                 (let usernames = usernames_in_range run;
                      csv_bytes = write_csv usernames;
                      lang_suffix = (case language of None \<Rightarrow> [] | Some l \<Rightarrow> ''_'' @ l);
                      filename = ''twitch_usernames_'' @ str_int start @ ''_'' @ str_int end
                                 @ lang_suffix @ ''.csv''
                  in (Attachment csv_bytes ''text/csv'' filename, range_events run))))"

definition is_client_error :: "http_response \<Rightarrow> bool" where
  "is_client_error r = (case r of Json st b \<Rightarrow> st = 400 | Attachment c m d \<Rightarrow> False)"


section \<open>Simulated data sources and reference notions\<close>

text \<open>
  A row as the listing shows a channel: one anchor holding the channel name and
  pointing at the channel's local path; and the same row with the avatar anchor, which
  has no text, in front of it.
\<close>

definition text_row :: "string \<Rightarrow> row" where
  "text_row name = [\<lparr> a_text = name, a_href = Some (CHR ''/'' # name) \<rparr>]"

definition image_row :: "string \<Rightarrow> row" where
  "image_row name =
     [\<lparr> a_text = [], a_href = Some (CHR ''/'' # name) \<rparr>,
      \<lparr> a_text = name, a_href = Some (CHR ''/'' # name) \<rparr>]"

text \<open>
  A data source that presents a fixed list of items 50 per page in stable order: page
  \<open>p\<close> holds the items at positions \<open>50 (p - 1) + 1\<close> to \<open>50 p\<close>, one row each.
\<close>

definition paged_source :: "string list \<Rightarrow> url \<Rightarrow> response" where
  "paged_source items u =
     (let p = (case snd u of None \<Rightarrow> 1 | Some k \<Rightarrow> k)
      in if p < 1 then RequestException
         else Markup \<lparr> channels_tbody =
                         Some (Some (map text_row (take 50 (drop (nat (p - 1) * 50) items)))),
                       pagination = None \<rparr>)"

text \<open>Sixty distinct names, \<open>u00\<close> to \<open>u59\<close>.\<close>

definition sixty_items :: "string list" where
  "sixty_items = concat (map (\<lambda>c. map (\<lambda>d. [CHR ''u'', c, d]) ''0123456789'') ''012345'')"

text \<open>A source whose first page cannot be fetched and whose other pages hold one row.\<close>

definition first_page_down :: "url \<Rightarrow> response" where
  "first_page_down u =
     (if snd u = None then RequestException
      else Markup \<lparr> channels_tbody = Some (Some [text_row ''KaiCenat'']), pagination = None \<rparr>)"

text \<open>A source whose every page is the one row with the avatar anchor first.\<close>

definition avatar_source :: "url \<Rightarrow> response" where
  "avatar_source u =
     Markup \<lparr> channels_tbody = Some (Some [image_row ''KaiCenat'']), pagination = None \<rparr>"

text \<open>
  A source whose first page holds two rows and an enabled "next" control, and whose
  other pages cannot be fetched.
\<close>

definition second_page_down :: "url \<Rightarrow> response" where
  "second_page_down u =
     (if snd u = None
      then Markup \<lparr> channels_tbody = Some (Some [text_row ''Alice'', text_row ''Bob'']),
                    pagination = Some (Some [''next'']) \<rparr>
      else RequestException)"



text \<open>
  A library for the concrete runs: \<^verbatim>\<open>str.strip\<close> and \<^verbatim>\<open>int\<close> as Python has them on
  ASCII strings (digit strings beyond the interpreter's length limit aside). \<^verbatim>\<open>strip\<close>
  removes the ASCII whitespace at both ends; \<^verbatim>\<open>int\<close> skips blanks at both ends and
  reads an optional sign and decimal digits, single underscores allowed between digits.
\<close>

definition strip_space :: "char \<Rightarrow> bool" where
  "strip_space c = (c \<in> set [CHR 0x09, CHR 0x0A, CHR 0x0B, CHR 0x0C, CHR 0x0D,
                              CHR 0x1C, CHR 0x1D, CHR 0x1E, CHR 0x1F, CHR 0x20])"

definition ascii_strip :: "string \<Rightarrow> string" where
  "ascii_strip s = rev (dropWhile strip_space (rev (dropWhile strip_space s)))"

definition int_space :: "char \<Rightarrow> bool" where
  "int_space c = (c \<in> set [CHR 0x09, CHR 0x0A, CHR 0x0B, CHR 0x0C, CHR 0x0D, CHR 0x20])"

definition digit_value :: "char \<Rightarrow> int option" where
  "digit_value c =
     (if 48 \<le> (of_char c :: nat) \<and> (of_char c :: nat) \<le> 57 then Some (int (of_char c) - 48)
      else None)"

fun read_digits :: "int \<Rightarrow> string \<Rightarrow> int option" where
  "read_digits acc [] = Some acc"
| "read_digits acc [c] =
     (case digit_value c of None \<Rightarrow> None | Some v \<Rightarrow> Some (10 * acc + v))"
| "read_digits acc (c # d # ds) =
     (if c = CHR ''_''
      then (case digit_value d of None \<Rightarrow> None | Some v \<Rightarrow> read_digits (10 * acc + v) ds)
      else (case digit_value c of None \<Rightarrow> None | Some v \<Rightarrow> read_digits (10 * acc + v) (d # ds)))"

definition read_unsigned :: "string \<Rightarrow> int option" where
  "read_unsigned s =
     (case s of
        [] \<Rightarrow> None
      | c # cs \<Rightarrow> (case digit_value c of None \<Rightarrow> None | Some v \<Rightarrow> read_digits v cs))"

definition ascii_int :: "string \<Rightarrow> int option" where
  "ascii_int s =
     (case rev (dropWhile int_space (rev (dropWhile int_space s))) of
        [] \<Rightarrow> None
      | c # cs \<Rightarrow>
          if c = CHR ''-'' then map_option uminus (read_unsigned cs)
          else if c = CHR ''+'' then read_unsigned cs
          else read_unsigned (c # cs))"

definition ascii_library :: library where
  "ascii_library = \<lparr> str_to_int = ascii_int, str_strip = ascii_strip \<rparr>"

text \<open>
  The reading of "the header line followed by one line per username": every line is
  the text itself followed by the line terminator.
\<close>

definition plain_lines :: "string list \<Rightarrow> string" where
  "plain_lines ls = concat (map (\<lambda>l. l @ crlf) ls)"

text \<open>
  The record of a username in the file, in the words of the amended claim: a username
  that is not empty and holds no comma, double quote, CR or LF stands as it is; any
  other is enclosed in double quotes with each double quote doubled.
\<close>

definition plain_username :: "string \<Rightarrow> bool" where
  "plain_username u =
     (u \<noteq> [] \<and> CHR '','' \<notin> set u \<and> CHR 0x22 \<notin> set u \<and> CHR 0x0D \<notin> set u \<and> CHR 0x0A \<notin> set u)"

primrec double_quotes :: "string \<Rightarrow> string" where
  "double_quotes [] = []"
| "double_quotes (c # cs) =
     (if c = CHR 0x22 then CHR 0x22 # CHR 0x22 # double_quotes cs else c # double_quotes cs)"

definition quoted_record :: "string \<Rightarrow> string" where
  "quoted_record u =
     (if plain_username u then u else CHR 0x22 # double_quotes u @ [CHR 0x22])"

text \<open>
  Well-formed UTF-8, after the table of the Unicode standard: a byte below 128 alone;
  a lead byte C2 to DF with one continuation byte; E0 to EF with two; F0 to F4 with
  three; the first continuation byte bounded after E0, ED, F0 and F4 so that no
  code point is written too long, is a surrogate or lies beyond 10FFFF.
\<close>

definition continuation :: "char \<Rightarrow> bool" where
  "continuation c = (128 \<le> (of_char c :: nat) \<and> (of_char c :: nat) < 192)"

fun utf8_ok :: "string \<Rightarrow> bool" where
  "utf8_ok [] = True"
| "utf8_ok (b # bs) =
     (let n = (of_char b :: nat)
      in if n < 128 then utf8_ok bs
         else if 194 \<le> n \<and> n < 224 then
           (case bs of
              c1 # r \<Rightarrow> continuation c1 \<and> utf8_ok r
            | _ \<Rightarrow> False)
         else if 224 \<le> n \<and> n < 240 then
           (case bs of
              c1 # c2 # r \<Rightarrow>
                continuation c1 \<and> continuation c2
                \<and> (n = 224 \<longrightarrow> 160 \<le> (of_char c1 :: nat))
                \<and> (n = 237 \<longrightarrow> (of_char c1 :: nat) < 160)
                \<and> utf8_ok r
            | _ \<Rightarrow> False)
         else if 240 \<le> n \<and> n < 245 then
           (case bs of
              c1 # c2 # c3 # r \<Rightarrow>
                continuation c1 \<and> continuation c2 \<and> continuation c3
                \<and> (n = 240 \<longrightarrow> 144 \<le> (of_char c1 :: nat))
                \<and> (n = 244 \<longrightarrow> (of_char c1 :: nat) < 144)
                \<and> utf8_ok r
            | _ \<Rightarrow> False)
         else False)"

text \<open>
  The running list of the specification: each username is appended only if it is not
  already present, so the first occurrence wins.
\<close>

fun first_seen :: "string list \<Rightarrow> string list \<Rightarrow> string list" where
  "first_seen acc [] = acc"
| "first_seen acc (u # us) = first_seen (if u \<in> set acc then acc else acc @ [u]) us"

text \<open>
  What a page offers. An anchor qualifies when its text is not empty and its target
  begins with a slash. The rows of a response are the rows of the table body, none when
  the fetch failed or the table or its body is missing. The full extractor is offered,
  per row, the text of the first anchor with an \<^verbatim>\<open>href\<close> if that anchor qualifies;
  the range extractor is offered the texts of all qualifying anchors of the row.
\<close>

definition qualifies :: "anchor \<Rightarrow> bool" where
  "qualifies link = (a_text link \<noteq> [] \<and> startswith_slash (get_href link))"

definition page_rows :: "response \<Rightarrow> row list" where
  "page_rows r =
     (case r of
        RequestException \<Rightarrow> []
      | Markup sp \<Rightarrow> (case channels_tbody sp of Some (Some rows) \<Rightarrow> rows | _ \<Rightarrow> []))"

definition full_row_username :: "row \<Rightarrow> string option" where
  "full_row_username row =
     (case find has_href row of
        None \<Rightarrow> None
      | Some link \<Rightarrow> if qualifies link then Some (a_text link) else None)"

definition full_discovered :: "(url \<Rightarrow> response) \<Rightarrow> url list \<Rightarrow> string list" where
  "full_discovered fetch urls =
     concat (map (\<lambda>u. List.map_filter full_row_username (page_rows (fetch u))) urls)"






text \<open>The list a step of the walk carries, whether it leaves the loop or goes on.\<close>

fun step_list :: "step \<Rightarrow> string list" where
  "step_list (Break us) = us"
| "step_list (Next_page us) = us"


text \<open>Whether a response has the results table with its body.\<close>

definition has_table_body :: "response \<Rightarrow> bool" where
  "has_table_body r =
     (case r of
        RequestException \<Rightarrow> False
      | Markup sp \<Rightarrow> (case channels_tbody sp of Some (Some rows) \<Rightarrow> True | _ \<Rightarrow> False))"


section \<open>Basic facts\<close>

declare walk.simps [simp del]

lemma fetches_simps [simp]:
  "fetches [] = []"
  "fetches (Get u # evs) = u # fetches evs"
  "fetches (Sleep # evs) = fetches evs"
  by (simp_all add: fetches_def)

lemma walk_fetches_prefix:
  "prefix (fetches (snd (walk fetch base_url page usernames)))
          (map (page_url base_url) [page..max_pages])"
proof (induction fetch base_url page usernames rule: walk.induct)
  case (1 fetch base_url page usernames)
  show ?case
  proof (cases "page \<le> max_pages")
    case False
    then show ?thesis
      by (subst walk.simps) simp
  next
    case True
    then have up: "[page..max_pages] = page # [page + 1..max_pages]"
      by (simp add: upto_rec1)
    show ?thesis
    proof (cases "walk_page fetch (page_url base_url page) usernames")
      case (Break res)
      with True show ?thesis
        by (subst walk.simps) (simp add: up)
    next
      case (Next_page usernames')
      with True "1.IH" [OF True Next_page] show ?thesis
        by (subst walk.simps) (auto simp: up split: prod.splits)
    qed
  qed
qed

lemma walk_break:
  "page \<le> max_pages \<Longrightarrow> walk_page fetch (page_url base_url page) usernames = Break res
   \<Longrightarrow> walk fetch base_url page usernames = (res, [Get (page_url base_url page)])"
  by (subst walk.simps) simp


section \<open>The running list: first seen wins\<close>

lemma first_seen_append: "first_seen acc (xs @ ys) = first_seen (first_seen acc xs) ys"
  by (induction xs arbitrary: acc) simp_all


lemma first_seen_prefix: "prefix acc (first_seen acc xs)"
proof (induction xs arbitrary: acc)
  case Nil
  show ?case by simp
next
  case (Cons x xs)
  have "prefix acc (if x \<in> set acc then acc else acc @ [x])"
    by simp
  from prefix_order.trans [OF this Cons.IH] show ?case
    by simp
qed

lemma first_seen_set: "set (first_seen acc xs) = set acc \<union> set xs"
  by (induction xs arbitrary: acc) auto

lemma full_rows_first_seen:
  "fst (full_rows usernames page_usernames rows)
     = first_seen usernames (List.map_filter full_row_username rows)"
proof (induction rows arbitrary: usernames page_usernames)
  case Nil
  show ?case by (simp add: List.map_filter_simps)
next
  case (Cons row rows)
  show ?case
    by (simp add: Cons.IH List.map_filter_simps full_row_username_def qualifies_def Let_def
             split: option.splits)
qed

lemma walk_page_first_seen:
  "step_list (walk_page fetch u usernames)
     = first_seen usernames (List.map_filter full_row_username (page_rows (fetch u)))"
proof (cases "fetch u")
  case RequestException
  then show ?thesis
    by (simp add: walk_page_def page_rows_def List.map_filter_simps)
next
  case (Markup sp)
  show ?thesis
  proof (cases "channels_tbody sp")
    case None
    with Markup show ?thesis
      by (simp add: walk_page_def page_rows_def List.map_filter_simps)
  next
    case table: (Some tbody)
    show ?thesis
    proof (cases tbody)
      case None
      with Markup table show ?thesis
        by (simp add: walk_page_def page_rows_def List.map_filter_simps)
    next
      case (Some rows)
      obtain us' pu where fr: "full_rows usernames [] rows = (us', pu)"
        by (cases "full_rows usernames [] rows")
      with full_rows_first_seen [of usernames "[]" rows]
      have "us' = first_seen usernames (List.map_filter full_row_username rows)"
        by simp
      with Markup table Some fr show ?thesis
        by (simp add: walk_page_def page_rows_def List.map_filter_simps)
    qed
  qed
qed

lemma walk_first_seen:
  "fst (walk fetch base_url page usernames)
     = first_seen usernames (full_discovered fetch (fetches (snd (walk fetch base_url page usernames))))"
proof (induction fetch base_url page usernames rule: walk.induct)
  case (1 fetch base_url page usernames)
  show ?case
  proof (cases "page \<le> max_pages")
    case False
    then show ?thesis
      by (subst (1 2) walk.simps) (simp add: full_discovered_def)
  next
    case True
    show ?thesis
    proof (cases "walk_page fetch (page_url base_url page) usernames")
      case (Break res)
      with walk_page_first_seen [of fetch "page_url base_url page" usernames] True
      show ?thesis
        by (subst (1 2) walk.simps) (simp add: full_discovered_def)
    next
      case (Next_page usernames')
      with walk_page_first_seen [of fetch "page_url base_url page" usernames] True
        "1.IH" [OF True Next_page]
      show ?thesis
        by (subst (1 2) walk.simps) (auto simp: full_discovered_def first_seen_append split: prod.splits)
    qed
  qed
qed










lemma range_pages_Cons_fst:
  "fst (range_pages fetch base_url (p # pages) acc)
     = fst (range_pages fetch base_url pages (fst (range_page fetch base_url p acc)))"
  by (simp add: case_prod_beta)

lemma range_pages_Cons_snd:
  "snd (range_pages fetch base_url (p # pages) acc)
     = snd (range_page fetch base_url p acc)
       @ snd (range_pages fetch base_url pages (fst (range_page fetch base_url p acc)))"
  by (simp add: case_prod_beta)



















section \<open>The full extractor's walk is bounded\<close>

text \<open>
  C6: whatever the pages answer, the walk of the full extractor ends (the loop is a
  total function, its page counter being bounded by the ceiling), and it fetches at
  most 100 pages: the URLs it fetches are an initial part of pages 1 to 100, in order.
\<close>

theorem walk_at_most_100_pages:
  "length (fetches (full_events (scrape_usernames fetch base_url output_file))) \<le> 100
   \<and> prefix (fetches (full_events (scrape_usernames fetch base_url output_file)))
            (map (page_url base_url) [1..100])"
proof -
  have p: "prefix (fetches (full_events (scrape_usernames fetch base_url output_file)))
            (map (page_url base_url) [1..100])"
    using walk_fetches_prefix [of fetch base_url 1 "[]"]
    by (cases "walk fetch base_url 1 []") (simp add: scrape_usernames_def max_pages_def)
  from prefix_length_le [OF p] show ?thesis
    using p by simp
qed

section \<open>The service operations\<close>

text \<open>
  C9: a success response of the "extract range as data" operation has status 200, its
  success flag is true and its count is the length of its username list.
\<close>

theorem scrape_success_payload:
  "fst (scrape lib fetch req) = Json st (SuccessBody ok n us) \<Longrightarrow> ok \<and> n = length us \<and> st = 200"
  by (auto simp: scrape_def Let_def invalid_range_def split: if_splits sum.splits prod.splits)

theorem scrape_success_payload_witness:
  "fst (scrape ascii_library (paged_source sixty_items)
          (Object \<lparr> req_start = Some (JInt 1), req_end = Some (JInt 3), req_language = None \<rparr>))
     = Json 200 (SuccessBody True 3 [''u00'', ''u01'', ''u02''])
   \<and> (3::nat) = length [''u00'', ''u01'', ''u02'']"
proof -
  have h: "fst (scrape ascii_library (paged_source sixty_items)
                  (Object \<lparr> req_start = Some (JInt 1), req_end = Some (JInt 3), req_language = None \<rparr>))
             = Json 200 (SuccessBody True 3 [''u00'', ''u01'', ''u02''])"
    by code_simp
  from scrape_success_payload [OF h] h show ?thesis
    by simp
qed

lemma py_strip_string_or_absent:
  "req_language flds = None \<or> req_language flds = Some (JStr l)
   \<Longrightarrow> \<exists>t. py_strip lib (json_get (req_language flds) (JStr [])) = Inr t"
  by (auto simp: py_strip_def json_get_def)

lemma py_strip_not_string:
  "req_language flds = Some v \<Longrightarrow> \<forall>s. v \<noteq> JStr s
   \<Longrightarrow> py_strip lib (json_get (req_language flds) (JStr [])) = Inl AttributeError"
  by (cases v) (auto simp: py_strip_def json_get_def)

text \<open>
  C7, as amended: for a request whose body is a JSON object, whose start and end
  convert to integers and whose language is absent or a string, both operations
  answer with the client error (status 400) and fetch nothing when start is below 1
  or end is below start, and neither answers with a client error when start is at
  least 1 and end at least start. The fields are converted before the range is looked
  at: when the body is not a JSON object, when \<^verbatim>\<open>int\<close> raises on start or on end, or
  when language is present and not a string, both operations answer 500 with the
  exception, whatever the range, and fetch nothing.
\<close>

theorem invalid_range_rejected:
  "(py_int lib (json_get (req_start flds) (JInt 1)) = Inr start
      \<and> py_int lib (json_get (req_end flds) (JInt 50)) = Inr end
      \<and> (req_language flds = None \<or> req_language flds = Some (JStr l))
    \<longrightarrow> (start < 1 \<or> end < start
          \<longrightarrow> scrape lib fetch (Object flds) = (invalid_range, [])
              \<and> download lib fetch (Object flds) = (invalid_range, [])
              \<and> is_client_error invalid_range)
        \<and> (1 \<le> start \<and> start \<le> end
          \<longrightarrow> \<not> is_client_error (fst (scrape lib fetch (Object flds)))
              \<and> \<not> is_client_error (fst (download lib fetch (Object flds)))))
   \<and> (read_range_request lib req = Inl err
        \<longrightarrow> scrape lib fetch req = (Json 500 (ExceptionBody err), [])
            \<and> download lib fetch req = (Json 500 (ExceptionBody err), []))
   \<and> read_range_request lib Not_json = Inl BadRequest
   \<and> read_range_request lib Not_object = Inl AttributeError
   \<and> (py_int lib (json_get (req_start flds) (JInt 1)) = Inl err
        \<longrightarrow> read_range_request lib (Object flds) = Inl err)
   \<and> (py_int lib (json_get (req_start flds) (JInt 1)) = Inr start
        \<and> py_int lib (json_get (req_end flds) (JInt 50)) = Inl err
        \<longrightarrow> read_range_request lib (Object flds) = Inl err)
   \<and> (py_int lib (json_get (req_start flds) (JInt 1)) = Inr start
        \<and> py_int lib (json_get (req_end flds) (JInt 50)) = Inr end
        \<and> req_language flds = Some v \<and> (\<forall>s. v \<noteq> JStr s)
        \<longrightarrow> read_range_request lib (Object flds) = Inl AttributeError)"
proof -
  have ok: "(start < 1 \<or> end < start
          \<longrightarrow> scrape lib fetch (Object flds) = (invalid_range, [])
              \<and> download lib fetch (Object flds) = (invalid_range, [])
              \<and> is_client_error invalid_range)
        \<and> (1 \<le> start \<and> start \<le> end
          \<longrightarrow> \<not> is_client_error (fst (scrape lib fetch (Object flds)))
              \<and> \<not> is_client_error (fst (download lib fetch (Object flds))))"
    if s: "py_int lib (json_get (req_start flds) (JInt 1)) = Inr start"
      and e: "py_int lib (json_get (req_end flds) (JInt 50)) = Inr end"
      and l: "req_language flds = None \<or> req_language flds = Some (JStr l)"
  proof -
    from py_strip_string_or_absent [OF l] obtain t
      where t: "py_strip lib (json_get (req_language flds) (JStr [])) = Inr t"
      by blast
    have r: "read_range_request lib (Object flds) = Inr (start, end, if t = [] then None else Some t)"
      by (simp add: read_range_request_def s e t)
    show ?thesis
      by (auto simp: scrape_def download_def r Let_def invalid_range_def is_client_error_def
               split: sum.splits)
  qed
  have raised: "scrape lib fetch req = (Json 500 (ExceptionBody err), [])
            \<and> download lib fetch req = (Json 500 (ExceptionBody err), [])"
    if "read_range_request lib req = Inl err"
    using that by (simp add: scrape_def download_def)
  have body: "read_range_request lib Not_json = Inl BadRequest"
    "read_range_request lib Not_object = Inl AttributeError"
    by (simp_all add: read_range_request_def)
  have first: "read_range_request lib (Object flds) = Inl err"
    if "py_int lib (json_get (req_start flds) (JInt 1)) = Inl err"
    using that by (simp add: read_range_request_def)
  have second: "read_range_request lib (Object flds) = Inl err"
    if "py_int lib (json_get (req_start flds) (JInt 1)) = Inr start"
      and "py_int lib (json_get (req_end flds) (JInt 50)) = Inl err"
    using that by (simp add: read_range_request_def)
  have third: "read_range_request lib (Object flds) = Inl AttributeError"
    if "py_int lib (json_get (req_start flds) (JInt 1)) = Inr start"
      and "py_int lib (json_get (req_end flds) (JInt 50)) = Inr end"
      and "req_language flds = Some v" and "\<forall>s. v \<noteq> JStr s"
    using that py_strip_not_string [of flds v lib]
    by (simp add: read_range_request_def)
  from ok raised body first second third show ?thesis
    by blast
qed

theorem invalid_range_rejected_witness:
  "scrape ascii_library (paged_source sixty_items)
     (Object \<lparr> req_start = Some (JInt 0), req_end = Some (JInt 5), req_language = None \<rparr>)
     = (invalid_range, [])
   \<and> download ascii_library (paged_source sixty_items)
     (Object \<lparr> req_start = Some (JInt 5), req_end = Some (JStr ''2''),
               req_language = Some (JStr '' english '') \<rparr>)
     = (invalid_range, [])
   \<and> \<not> is_client_error (fst (scrape ascii_library (paged_source sixty_items)
          (Object \<lparr> req_start = Some (JInt 1), req_end = None, req_language = None \<rparr>)))
   \<and> \<not> is_client_error (fst (download ascii_library (paged_source sixty_items)
          (Object \<lparr> req_start = Some (JInt 1), req_end = None, req_language = None \<rparr>)))
   \<and> download ascii_library (paged_source sixty_items)
     (Object \<lparr> req_start = Some (JInt 0), req_end = Some (JInt 5), req_language = Some JNull \<rparr>)
     = (Json 500 (ExceptionBody AttributeError), [])"
proof -
  let ?f1 = "\<lparr> req_start = Some (JInt 0), req_end = Some (JInt 5), req_language = None \<rparr>"
  let ?f2 = "\<lparr> req_start = Some (JInt 5), req_end = Some (JStr ''2''),
               req_language = Some (JStr '' english '') \<rparr>"
  let ?f3 = "\<lparr> req_start = Some (JInt 1), req_end = None, req_language = None \<rparr>"
  let ?f4 = "\<lparr> req_start = Some (JInt 0), req_end = Some (JInt 5), req_language = Some JNull \<rparr>"
  have c1: "py_int ascii_library (json_get (req_start ?f1) (JInt 1)) = Inr 0"
    "py_int ascii_library (json_get (req_end ?f1) (JInt 50)) = Inr 5"
    by (simp_all add: py_int_def json_get_def)
  have c2: "py_int ascii_library (json_get (req_start ?f2) (JInt 1)) = Inr 5"
    "py_int ascii_library (json_get (req_end ?f2) (JInt 50)) = Inr 2"
    by code_simp+
  have c3: "py_int ascii_library (json_get (req_start ?f3) (JInt 1)) = Inr 1"
    "py_int ascii_library (json_get (req_end ?f3) (JInt 50)) = Inr 50"
    by (simp_all add: py_int_def json_get_def)
  have c4: "py_int ascii_library (json_get (req_start ?f4) (JInt 1)) = Inr 0"
    "py_int ascii_library (json_get (req_end ?f4) (JInt 50)) = Inr 5"
    by (simp_all add: py_int_def json_get_def)
  have w1: "scrape ascii_library (paged_source sixty_items) (Object ?f1) = (invalid_range, [])"
    using invalid_range_rejected [of ascii_library ?f1 0 5 "[]" "paged_source sixty_items"] c1
    by simp
  have w2: "download ascii_library (paged_source sixty_items) (Object ?f2) = (invalid_range, [])"
    using invalid_range_rejected [of ascii_library ?f2 5 2 "'' english ''" "paged_source sixty_items"] c2
    by simp
  have w3: "\<not> is_client_error (fst (scrape ascii_library (paged_source sixty_items) (Object ?f3)))
            \<and> \<not> is_client_error (fst (download ascii_library (paged_source sixty_items) (Object ?f3)))"
    using invalid_range_rejected [of ascii_library ?f3 1 50 "[]" "paged_source sixty_items"] c3
    by simp
  have r4: "read_range_request ascii_library (Object ?f4) = Inl AttributeError"
    using invalid_range_rejected [of ascii_library ?f4 0 5 "[]" "paged_source sixty_items" _ _ JNull] c4
    by simp
  have w4: "download ascii_library (paged_source sixty_items) (Object ?f4)
              = (Json 500 (ExceptionBody AttributeError), [])"
    using invalid_range_rejected [of ascii_library ?f4 0 5 "[]" "paged_source sixty_items"
                                     "Object ?f4" AttributeError] r4
    by simp
  from w1 w2 w3 w4 show ?thesis
    by simp
qed

text \<open>
  C7 as stated fails: a request with start 0 and a null language is answered with
  status 500, not with the client error.
\<close>

theorem range_check_after_conversion_counterexample:
  "scrape ascii_library (paged_source sixty_items)
     (Object \<lparr> req_start = Some (JInt 0), req_end = Some (JInt 5), req_language = Some JNull \<rparr>)
     = (Json 500 (ExceptionBody AttributeError), [])
   \<and> \<not> is_client_error (Json 500 (ExceptionBody AttributeError))"
  by code_simp


section \<open>The CSV output\<close>

lemma fold_append_out:
  "fold (\<lambda>u out. out @ f u) us init = init @ concat (map f us)"
  by (induction us arbitrary: init) simp_all

lemma needs_quoting_plain:
  "needs_quoting u \<longleftrightarrow> \<not> (CHR '','' \<notin> set u \<and> CHR 0x22 \<notin> set u \<and> CHR 0x0D \<notin> set u \<and> CHR 0x0A \<notin> set u)"
  by (induction u) (auto simp: needs_quoting_def dquote_def)

lemma double_quotes_concat:
  "concat (map (\<lambda>c. if c = dquote then [dquote, dquote] else [c]) u) = double_quotes u"
  by (induction u) (simp_all add: dquote_def)

lemma writerow_single: "writerow [u] = quoted_record u @ crlf"
proof (cases "u = []")
  case True
  then show ?thesis
    by (simp add: writerow_def quoted_record_def plain_username_def dquote_def)
next
  case False
  then show ?thesis
    using needs_quoting_plain [of u]
    by (simp add: writerow_def quoted_record_def plain_username_def csv_field_def
                  double_quotes_concat)
       (simp add: dquote_def)
qed

lemma header_record: "quoted_record ''twitch_username'' = ''twitch_username''"
  by (subst quoted_record_def) (simp add: plain_username_def)

lemma header_row: "writerow [''twitch_username''] = ''twitch_username'' @ crlf"
  by (subst writerow_single, subst header_record) (rule refl)

lemma write_csv_records:
  "write_csv us = plain_lines (''twitch_username'' # map quoted_record us)"
  by (simp add: write_csv_def fold_append_out writerow_single header_record plain_lines_def comp_def)

declare utf8_ok.simps(2) [simp del]

lemma utf8_ok_Cons_ascii:
  "(of_char b :: nat) < 128 \<Longrightarrow> utf8_ok (b # bs) = utf8_ok bs"
  by (simp add: utf8_ok.simps(2))

lemma utf8_ok_Cons_two:
  "194 \<le> (of_char b :: nat) \<Longrightarrow> (of_char b :: nat) < 224
   \<Longrightarrow> utf8_ok (b # bs) = (\<exists>c1 r. bs = c1 # r \<and> continuation c1 \<and> utf8_ok r)"
  by (cases bs) (simp_all add: utf8_ok.simps(2))

lemma utf8_ok_Cons_three:
  assumes "224 \<le> (of_char b :: nat)" "(of_char b :: nat) < 240"
  shows "utf8_ok (b # bs) =
       (\<exists>c1 c2 r. bs = c1 # c2 # r \<and> continuation c1 \<and> continuation c2
          \<and> ((of_char b :: nat) = 224 \<longrightarrow> 160 \<le> (of_char c1 :: nat))
          \<and> ((of_char b :: nat) = 237 \<longrightarrow> (of_char c1 :: nat) < 160)
          \<and> utf8_ok r)"
proof (cases bs)
  case Nil
  with assms show ?thesis by (simp add: utf8_ok.simps(2))
next
  case (Cons c1 bs1)
  with assms show ?thesis
    by (cases bs1) (simp_all add: utf8_ok.simps(2) Let_def)
qed

lemma utf8_ok_Cons_four:
  assumes "240 \<le> (of_char b :: nat)" "(of_char b :: nat) < 245"
  shows "utf8_ok (b # bs) =
       (\<exists>c1 c2 c3 r. bs = c1 # c2 # c3 # r \<and> continuation c1 \<and> continuation c2 \<and> continuation c3
          \<and> ((of_char b :: nat) = 240 \<longrightarrow> 144 \<le> (of_char c1 :: nat))
          \<and> ((of_char b :: nat) = 244 \<longrightarrow> (of_char c1 :: nat) < 144)
          \<and> utf8_ok r)"
proof (cases bs)
  case Nil
  with assms show ?thesis by (simp add: utf8_ok.simps(2))
next
  case c1: (Cons c1 bs1)
  show ?thesis
  proof (cases bs1)
    case Nil
    with assms c1 show ?thesis by (simp add: utf8_ok.simps(2))
  next
    case c2: (Cons c2 bs2)
    with assms c1 show ?thesis
      by (cases bs2) (simp_all add: utf8_ok.simps(2) Let_def)
  qed
qed

lemma utf8_ok_Cons_bad:
  "(128 \<le> (of_char b :: nat) \<and> (of_char b :: nat) < 194) \<or> 245 \<le> (of_char b :: nat)
   \<Longrightarrow> \<not> utf8_ok (b # bs)"
  by (auto simp: utf8_ok.simps(2))

lemma lead_byte_cases:
  fixes n :: nat
  obtains (ascii) "n < 128"
    | (two) "194 \<le> n" "n < 224"
    | (three) "224 \<le> n" "n < 240"
    | (four) "240 \<le> n" "n < 245"
    | (bad) "(128 \<le> n \<and> n < 194) \<or> 245 \<le> n"
  by linarith

lemma utf8_ok_append:
  assumes "utf8_ok ys"
  shows "utf8_ok xs \<Longrightarrow> utf8_ok (xs @ ys)"
proof (induction xs rule: length_induct)
  case (1 xs)
  show ?case
  proof (cases xs)
    case Nil
    with assms show ?thesis by simp
  next
    case (Cons b bs)
    show ?thesis
    proof (cases "of_char b :: nat" rule: lead_byte_cases)
      case ascii
      with "1.prems" Cons have "utf8_ok bs"
        by (simp add: utf8_ok_Cons_ascii)
      with "1.IH" Cons have "utf8_ok (bs @ ys)"
        by simp
      with ascii Cons show ?thesis
        by (simp add: utf8_ok_Cons_ascii)
    next
      case two
      with "1.prems" Cons obtain c1 r where bs: "bs = c1 # r" and c: "continuation c1" and r: "utf8_ok r"
        by (auto simp: utf8_ok_Cons_two)
      from "1.IH" Cons bs r have "utf8_ok (r @ ys)"
        by simp
      with two Cons bs c show ?thesis
        by (simp add: utf8_ok_Cons_two)
    next
      case three
      with "1.prems" Cons obtain c1 c2 r where bs: "bs = c1 # c2 # r"
        and c: "continuation c1" "continuation c2"
          "(of_char b :: nat) = 224 \<longrightarrow> 160 \<le> (of_char c1 :: nat)"
          "(of_char b :: nat) = 237 \<longrightarrow> (of_char c1 :: nat) < 160"
        and r: "utf8_ok r"
        by (auto simp: utf8_ok_Cons_three)
      from "1.IH" Cons bs r have "utf8_ok (r @ ys)"
        by simp
      with three Cons bs c show ?thesis
        by (simp add: utf8_ok_Cons_three)
    next
      case four
      with "1.prems" Cons obtain c1 c2 c3 r where bs: "bs = c1 # c2 # c3 # r"
        and c: "continuation c1" "continuation c2" "continuation c3"
          "(of_char b :: nat) = 240 \<longrightarrow> 144 \<le> (of_char c1 :: nat)"
          "(of_char b :: nat) = 244 \<longrightarrow> (of_char c1 :: nat) < 144"
        and r: "utf8_ok r"
        by (auto simp: utf8_ok_Cons_four)
      from "1.IH" Cons bs r have "utf8_ok (r @ ys)"
        by simp
      with four Cons bs c show ?thesis
        by (simp add: utf8_ok_Cons_four)
    next
      case bad
      with "1.prems" Cons show ?thesis
        using utf8_ok_Cons_bad [of b bs] by simp
    qed
  qed
qed

lemma utf8_ok_ascii: "\<forall>c \<in> set s. (of_char c :: nat) < 128 \<Longrightarrow> utf8_ok s"
  by (induction s) (simp_all add: utf8_ok_Cons_ascii)

lemma not_quote: "128 \<le> (of_char c :: nat) \<Longrightarrow> c \<noteq> CHR 0x22"
  by auto

lemma utf8_ok_double_quotes: "utf8_ok u \<Longrightarrow> utf8_ok (double_quotes u)"
proof (induction u rule: length_induct)
  case (1 u)
  show ?case
  proof (cases u)
    case Nil
    then show ?thesis by simp
  next
    case (Cons b bs)
    show ?thesis
    proof (cases "of_char b :: nat" rule: lead_byte_cases)
      case ascii
      with "1.prems" Cons have "utf8_ok bs"
        by (simp add: utf8_ok_Cons_ascii)
      with "1.IH" Cons have "utf8_ok (double_quotes bs)"
        by simp
      with ascii Cons show ?thesis
        by (simp add: utf8_ok_Cons_ascii)
    next
      case two
      with "1.prems" Cons obtain c1 r where bs: "bs = c1 # r" and c: "continuation c1" and r: "utf8_ok r"
        by (auto simp: utf8_ok_Cons_two)
      from "1.IH" Cons bs r have "utf8_ok (double_quotes r)"
        by simp
      moreover have "b \<noteq> CHR 0x22" "c1 \<noteq> CHR 0x22"
        using two c by (auto simp: continuation_def intro: not_quote)
      ultimately show ?thesis
        using two Cons bs c by (simp add: utf8_ok_Cons_two)
    next
      case three
      with "1.prems" Cons obtain c1 c2 r where bs: "bs = c1 # c2 # r"
        and c: "continuation c1" "continuation c2"
          "(of_char b :: nat) = 224 \<longrightarrow> 160 \<le> (of_char c1 :: nat)"
          "(of_char b :: nat) = 237 \<longrightarrow> (of_char c1 :: nat) < 160"
        and r: "utf8_ok r"
        by (auto simp: utf8_ok_Cons_three)
      from "1.IH" Cons bs r have "utf8_ok (double_quotes r)"
        by simp
      moreover have "b \<noteq> CHR 0x22" "c1 \<noteq> CHR 0x22" "c2 \<noteq> CHR 0x22"
        using three c by (auto simp: continuation_def intro: not_quote)
      ultimately show ?thesis
        using three Cons bs c by (simp add: utf8_ok_Cons_three)
    next
      case four
      with "1.prems" Cons obtain c1 c2 c3 r where bs: "bs = c1 # c2 # c3 # r"
        and c: "continuation c1" "continuation c2" "continuation c3"
          "(of_char b :: nat) = 240 \<longrightarrow> 144 \<le> (of_char c1 :: nat)"
          "(of_char b :: nat) = 244 \<longrightarrow> (of_char c1 :: nat) < 144"
        and r: "utf8_ok r"
        by (auto simp: utf8_ok_Cons_four)
      from "1.IH" Cons bs r have "utf8_ok (double_quotes r)"
        by simp
      moreover have "b \<noteq> CHR 0x22" "c1 \<noteq> CHR 0x22" "c2 \<noteq> CHR 0x22" "c3 \<noteq> CHR 0x22"
        using four c by (auto simp: continuation_def intro: not_quote)
      ultimately show ?thesis
        using four Cons bs c by (simp add: utf8_ok_Cons_four)
    next
      case bad
      with "1.prems" Cons show ?thesis
        using utf8_ok_Cons_bad [of b bs] by simp
    qed
  qed
qed

lemma utf8_ok_quoted_record: "utf8_ok u \<Longrightarrow> utf8_ok (quoted_record u)"
proof -
  assume u: "utf8_ok u"
  have q: "utf8_ok [CHR 0x22]"
    by (simp add: utf8_ok_Cons_ascii)
  from utf8_ok_append [OF q utf8_ok_double_quotes [OF u]]
  have "utf8_ok (double_quotes u @ [CHR 0x22])" .
  then have "utf8_ok (CHR 0x22 # double_quotes u @ [CHR 0x22])"
    by (simp add: utf8_ok_Cons_ascii)
  with u show ?thesis
    by (simp add: quoted_record_def)
qed

lemma utf8_ok_crlf: "utf8_ok crlf"
  by (simp add: crlf_def utf8_ok_Cons_ascii)

lemma utf8_ok_plain_lines: "\<forall>l \<in> set ls. utf8_ok l \<Longrightarrow> utf8_ok (plain_lines ls)"
proof (induction ls)
  case Nil
  show ?case by (simp add: plain_lines_def)
next
  case (Cons l ls)
  then have "utf8_ok (plain_lines ls)" and l: "utf8_ok l"
    by simp_all
  from utf8_ok_append [OF this(1), of "l @ crlf"] utf8_ok_append [OF utf8_ok_crlf l]
  show ?case
    by (simp add: plain_lines_def)
qed

lemma utf8_ok_header: "utf8_ok ''twitch_username''"
  by (simp add: utf8_ok_Cons_ascii)

lemma utf8_ok_write_csv: "\<forall>u \<in> set us. utf8_ok u \<Longrightarrow> utf8_ok (write_csv us)"
  unfolding write_csv_records
  by (rule utf8_ok_plain_lines) (auto simp: utf8_ok_header utf8_ok_quoted_record)

text \<open>
  C8, as amended: the CSV is the header line followed by one record per username in
  result order, each ended by CR LF. A username that is not empty and holds no comma,
  double quote, CR or LF is written as it is, so that for such usernames the content
  is exactly the header line and then the usernames, one per line; any other username
  is written enclosed in double quotes with each double quote doubled. The content is
  UTF-8: when the usernames are well-formed UTF-8, so is the whole content.
\<close>

theorem write_csv_layout:
  "write_csv us = plain_lines (''twitch_username'' # map quoted_record us)
   \<and> ((\<forall>u \<in> set us. plain_username u)
        \<longrightarrow> write_csv us = plain_lines (''twitch_username'' # us))
   \<and> ((\<forall>u \<in> set us. utf8_ok u) \<longrightarrow> utf8_ok (write_csv us))"
proof -
  have records: "write_csv us = plain_lines (''twitch_username'' # map quoted_record us)"
    by (rule write_csv_records)
  have "map quoted_record us = us" if "\<forall>u \<in> set us. plain_username u"
    using that by (induction us) (simp_all add: quoted_record_def)
  with records have plain: "write_csv us = plain_lines (''twitch_username'' # us)"
    if "\<forall>u \<in> set us. plain_username u"
    using that by simp
  have encoded: "utf8_ok (write_csv us)" if "\<forall>u \<in> set us. utf8_ok u"
    using that by (rule utf8_ok_write_csv)
  from records plain encoded show ?thesis
    by blast
qed

theorem write_csv_layout_witness:
  "write_csv [''Alice'', ''Bob'']
     = ''twitch_username'' @ [CHR 0x0D, CHR 0x0A] @ ''Alice'' @ [CHR 0x0D, CHR 0x0A]
       @ ''Bob'' @ [CHR 0x0D, CHR 0x0A]
   \<and> utf8_ok (write_csv [''Alice'', ''Bob''])
   \<and> write_csv [[CHR ''Z'', CHR ''o'', CHR 0xC3, CHR 0xAB], [CHR ''a'', CHR '','', CHR 0x22, CHR ''b'']]
     = ''twitch_username'' @ [CHR 0x0D, CHR 0x0A]
       @ [CHR ''Z'', CHR ''o'', CHR 0xC3, CHR 0xAB] @ [CHR 0x0D, CHR 0x0A]
       @ [CHR 0x22, CHR ''a'', CHR '','', CHR 0x22, CHR 0x22, CHR ''b'', CHR 0x22] @ [CHR 0x0D, CHR 0x0A]
   \<and> utf8_ok (write_csv [[CHR ''Z'', CHR ''o'', CHR 0xC3, CHR 0xAB],
                           [CHR ''a'', CHR '','', CHR 0x22, CHR ''b'']])"
proof -
  let ?plain = "[''Alice'', ''Bob'']"
  let ?other = "[[CHR ''Z'', CHR ''o'', CHR 0xC3, CHR 0xAB], [CHR ''a'', CHR '','', CHR 0x22, CHR ''b'']]"
  have p: "\<forall>u \<in> set ?plain. plain_username u"
    by (simp add: plain_username_def)
  have v1: "\<forall>u \<in> set ?plain. utf8_ok u"
    by code_simp
  have v2: "\<forall>u \<in> set ?other. utf8_ok u"
    by code_simp
  have q: "map quoted_record ?other
             = [[CHR ''Z'', CHR ''o'', CHR 0xC3, CHR 0xAB],
                [CHR 0x22, CHR ''a'', CHR '','', CHR 0x22, CHR 0x22, CHR ''b'', CHR 0x22]]"
    by code_simp
  from write_csv_layout [of ?plain] p v1
  have a: "write_csv ?plain = plain_lines (''twitch_username'' # ?plain)" "utf8_ok (write_csv ?plain)"
    by blast+
  from write_csv_layout [of ?other] v2
  have b: "write_csv ?other = plain_lines (''twitch_username'' # map quoted_record ?other)"
    "utf8_ok (write_csv ?other)"
    by blast+
  from a(1) have a': "write_csv ?plain
     = ''twitch_username'' @ [CHR 0x0D, CHR 0x0A] @ ''Alice'' @ [CHR 0x0D, CHR 0x0A]
       @ ''Bob'' @ [CHR 0x0D, CHR 0x0A]"
    by (simp add: plain_lines_def crlf_def)
  from b(1) have b': "write_csv ?other
     = ''twitch_username'' @ [CHR 0x0D, CHR 0x0A]
       @ [CHR ''Z'', CHR ''o'', CHR 0xC3, CHR 0xAB] @ [CHR 0x0D, CHR 0x0A]
       @ [CHR 0x22, CHR ''a'', CHR '','', CHR 0x22, CHR 0x22, CHR ''b'', CHR 0x22] @ [CHR 0x0D, CHR 0x0A]"
    unfolding q by (simp add: plain_lines_def crlf_def)
  from a' a(2) b' b(2) show ?thesis
    by blast
qed

text \<open>
  C8 as stated fails: a username holding a line feed is written enclosed in double
  quotes, so the content is not the header line followed by the username on a line of
  its own.
\<close>

theorem write_csv_verbatim_counterexample:
  "write_csv [''Kai'' @ [CHR 0x0A] @ ''Cenat'']
     \<noteq> plain_lines [''twitch_username'', ''Kai'' @ [CHR 0x0A] @ ''Cenat'']"
  by code_simp


section \<open>The file of the full extractor\<close>

lemma walk_stops_on_failed_page:
  assumes "page \<le> max_pages"
    and "fetch (page_url base_url page) = RequestException
         \<or> (\<exists>sp. fetch (page_url base_url page) = Markup sp
                  \<and> (channels_tbody sp = None \<or> channels_tbody sp = Some None))"
  shows "walk fetch base_url page usernames = (usernames, [Get (page_url base_url page)])"
proof -
  from assms(2) have "walk_page fetch (page_url base_url page) usernames = Break usernames"
    by (auto simp: walk_page_def)
  with assms(1) show ?thesis
    by (intro walk_break)
qed

text \<open>
  C10: wherever the walk stops, the CSV file the full extractor writes holds the
  header row followed by the records of exactly the list it returns, in order, and
  that list is what was accumulated from the pages fetched. A page that cannot be
  fetched, or has no table or no table body, stops the walk with the list accumulated
  before it unchanged; when this happens on the very first page the returned list is
  empty and the file is the header row alone.
\<close>

theorem csv_written_after_any_stop:
  "csvfile (scrape_usernames fetch base_url output_file)
     = (output_file,
        plain_lines (''twitch_username''
                     # map quoted_record (returned (scrape_usernames fetch base_url output_file))))
   \<and> returned (scrape_usernames fetch base_url output_file)
     = first_seen [] (full_discovered fetch
                        (fetches (full_events (scrape_usernames fetch base_url output_file))))
   \<and> (page \<le> max_pages
        \<and> (fetch (page_url base_url page) = RequestException
            \<or> (\<exists>sp. fetch (page_url base_url page) = Markup sp
                     \<and> (channels_tbody sp = None \<or> channels_tbody sp = Some None)))
      \<longrightarrow> walk fetch base_url page usernames = (usernames, [Get (page_url base_url page)]))
   \<and> (fetch (page_url base_url 1) = RequestException
        \<or> (\<exists>sp. fetch (page_url base_url 1) = Markup sp
                 \<and> (channels_tbody sp = None \<or> channels_tbody sp = Some None))
      \<longrightarrow> returned (scrape_usernames fetch base_url output_file) = []
          \<and> csvfile (scrape_usernames fetch base_url output_file)
              = (output_file, ''twitch_username'' @ crlf))"
proof -
  have written: "csvfile (scrape_usernames fetch base_url output_file)
     = (output_file,
        plain_lines (''twitch_username''
                     # map quoted_record (returned (scrape_usernames fetch base_url output_file))))"
    by (cases "walk fetch base_url 1 []") (simp add: scrape_usernames_def write_csv_records)
  have accumulated: "returned (scrape_usernames fetch base_url output_file)
     = first_seen [] (full_discovered fetch
                        (fetches (full_events (scrape_usernames fetch base_url output_file))))"
    using walk_first_seen [of fetch base_url 1 "[]"]
    by (cases "walk fetch base_url 1 []") (simp add: scrape_usernames_def)
  have stop: "walk fetch base_url page usernames = (usernames, [Get (page_url base_url page)])"
    if "page \<le> max_pages
        \<and> (fetch (page_url base_url page) = RequestException
            \<or> (\<exists>sp. fetch (page_url base_url page) = Markup sp
                     \<and> (channels_tbody sp = None \<or> channels_tbody sp = Some None)))"
    using that by (intro walk_stops_on_failed_page) simp_all
  have first: "returned (scrape_usernames fetch base_url output_file) = []
          \<and> csvfile (scrape_usernames fetch base_url output_file)
              = (output_file, ''twitch_username'' @ crlf)"
    if f: "fetch (page_url base_url 1) = RequestException
        \<or> (\<exists>sp. fetch (page_url base_url 1) = Markup sp
                 \<and> (channels_tbody sp = None \<or> channels_tbody sp = Some None))"
  proof -
    have "walk fetch base_url 1 [] = ([], [Get (page_url base_url 1)])"
      using f by (intro walk_stops_on_failed_page) (simp_all add: max_pages_def)
    then have "returned (scrape_usernames fetch base_url output_file) = []"
      by (simp add: scrape_usernames_def)
    with written show ?thesis
      by (simp add: plain_lines_def)
  qed
  from written accumulated stop first show ?thesis
    by blast
qed

theorem csv_written_after_any_stop_witness:
  "returned (scrape_usernames second_page_down listing_url ''twitch_usernames.csv'')
     = [''Alice'', ''Bob'']
   \<and> full_events (scrape_usernames second_page_down listing_url ''twitch_usernames.csv'')
     = [Get (listing_url, None), Sleep, Get (listing_url, Some 2)]
   \<and> csvfile (scrape_usernames second_page_down listing_url ''twitch_usernames.csv'')
     = (''twitch_usernames.csv'',
        ''twitch_username'' @ [CHR 0x0D, CHR 0x0A] @ ''Alice'' @ [CHR 0x0D, CHR 0x0A]
        @ ''Bob'' @ [CHR 0x0D, CHR 0x0A])
   \<and> walk second_page_down listing_url 2 [''Alice'', ''Bob'']
     = ([''Alice'', ''Bob''], [Get (listing_url, Some 2)])
   \<and> returned (scrape_usernames first_page_down listing_url ''twitch_usernames.csv'') = []
   \<and> csvfile (scrape_usernames first_page_down listing_url ''twitch_usernames.csv'')
     = (''twitch_usernames.csv'', ''twitch_username'' @ [CHR 0x0D, CHR 0x0A])"
proof -
  let ?run = "scrape_usernames second_page_down listing_url ''twitch_usernames.csv''"
  have ev: "full_events ?run = [Get (listing_url, None), Sleep, Get (listing_url, Some 2)]"
    by code_simp
  have disc: "first_seen [] (full_discovered second_page_down [(listing_url, None), (listing_url, Some 2)])
                = [''Alice'', ''Bob'']"
    by code_simp
  have q: "quoted_record ''Alice'' = ''Alice''" "quoted_record ''Bob'' = ''Bob''"
    by code_simp+
  have down2: "(2::int) \<le> max_pages \<and> second_page_down (page_url listing_url 2) = RequestException"
    by (simp add: max_pages_def second_page_down_def page_url_def)
  have down1: "first_page_down (page_url listing_url 1) = RequestException"
    by (simp add: first_page_down_def page_url_def)
  note a = csv_written_after_any_stop
             [of second_page_down listing_url "''twitch_usernames.csv''" 2 "[''Alice'', ''Bob'']"]
  note b = csv_written_after_any_stop [of first_page_down listing_url "''twitch_usernames.csv''"]
  from a have r: "returned ?run = [''Alice'', ''Bob'']"
    by (simp add: ev disc)
  from a r have f: "csvfile ?run
     = (''twitch_usernames.csv'',
        ''twitch_username'' @ [CHR 0x0D, CHR 0x0A] @ ''Alice'' @ [CHR 0x0D, CHR 0x0A]
        @ ''Bob'' @ [CHR 0x0D, CHR 0x0A])"
    by (simp add: q plain_lines_def crlf_def)
  from a down2 have w: "walk second_page_down listing_url 2 [''Alice'', ''Bob'']
     = ([''Alice'', ''Bob''], [Get (listing_url, Some 2)])"
    by (simp add: page_url_def)
  from b down1
  have "returned (scrape_usernames first_page_down listing_url ''twitch_usernames.csv'') = []
           \<and> csvfile (scrape_usernames first_page_down listing_url ''twitch_usernames.csv'')
              = (''twitch_usernames.csv'', ''twitch_username'' @ crlf)"
    by blast
  then
  have e: "returned (scrape_usernames first_page_down listing_url ''twitch_usernames.csv'') = []
           \<and> csvfile (scrape_usernames first_page_down listing_url ''twitch_usernames.csv'')
              = (''twitch_usernames.csv'', ''twitch_username'' @ [CHR 0x0D, CHR 0x0A])"
    by (simp add: crlf_def)
  from r ev f w e show ?thesis
    by blast
qed


section \<open>Where the page calculator is exact\<close>

text \<open>
  Below \<open>50 * 2 ^ 48\<close> the float quotient keeps enough of the fraction: the page
  calculator returns the pages from the exact ceiling of start / 50 to the exact
  ceiling of end / 50.
\<close>

lemma round_half_even_bounds:
  assumes "0 < d"
  shows "2 * n - d \<le> 2 * d * round_half_even n d \<and> 2 * d * round_half_even n d \<le> 2 * n + d"
proof -
  define q r where "q = n div d" and "r = n mod d"
  have n: "n = d * q + r"
    by (simp add: q_def r_def)
  have r: "0 \<le> r" "r < d"
    using assms by (simp_all add: r_def)
  have *: "d * (q + 1) = d * q + d"
    by (simp add: algebra_simps)
  show ?thesis
    unfolding round_half_even_def Let_def q_def [symmetric] r_def [symmetric]
    using r n by (auto simp: algebra_simps)
qed

lemma neg_div_ceiling:
  fixes c m K :: int
  assumes "0 < K" "(c - 1) * K < m" "m \<le> c * K"
  shows "- ((- m) div K) = c"
proof -
  have "(- m) div K = - c"
  proof (rule int_div_pos_eq)
    show "- m = K * (- c) + (c * K - m)"
      by (simp add: algebra_simps)
    show "0 \<le> c * K - m"
      using assms by simp
    show "c * K - m < K"
      using assms by (simp add: algebra_simps)
  qed
  then show ?thesis by simp
qed

lemma bitlen_50: "bitlen 50 = 6"
  by code_simp

lemma quot_log2_50_bounds:
  assumes "1 \<le> a" "a < 50 * 2 ^ 48"
  shows "- 6 \<le> quot_log2 a 50 \<and> quot_log2 a 50 \<le> 47"
proof -
  have "a < 2 ^ nat 54"
    using assms by simp
  then have hi: "bitlen a \<le> 54"
    by (simp add: bitlen_le_iff_power)
  have "2 ^ (nat 1 - 1) \<le> a"
    using assms by simp
  then have lo: "1 \<le> bitlen a"
    by (simp add: bitlen_ge_iff_power)
  show ?thesis
  proof (cases "bitlen a = 54")
    case True
    with assms show ?thesis
      by (simp add: quot_log2_def bitlen_50)
  next
    case False
    with hi lo show ?thesis
      by (simp add: quot_log2_def bitlen_50 Let_def)
  qed
qed

lemma ceil_true_divide_50:
  assumes "1 \<le> a" "a < 50 * 2 ^ 48"
  shows "\<exists>x. int_true_divide a 50 = Inr x \<and> ceil x = (a + 49) div 50"
proof -
  define k where "k = nat (52 - quot_log2 a 50)"
  define K :: int where "K = 2 ^ k"
  define m where "m = round_half_even (a * K) 50"
  define c where "c = (a + 49) div 50"
  from quot_log2_50_bounds [OF assms] have e: "quot_log2 a 50 - 52 < 0" "- 1074 \<le> quot_log2 a 50 - 52"
    by simp_all
  from quot_log2_50_bounds [OF assms] have k5: "5 \<le> k"
    unfolding k_def by linarith
  have e': "max (quot_log2 a 50 - 52) (- 1074) = quot_log2 a 50 - 52"
    using e by simp
  have val: "int_true_divide a 50 = Inr (PyFloat m (quot_log2 a 50 - 52))"
    unfolding m_def K_def k_def using assms e
    by (simp add: int_true_divide_def Let_def e')
  have "(2::int) ^ 5 \<le> 2 ^ k"
    using k5 by (intro power_increasing) simp_all
  then have K: "32 \<le> K"
    by (simp add: K_def)
  have c1: "50 * (c - 1) < a" and c2: "a \<le> 50 * c"
    unfolding c_def by presburger+
  from round_half_even_bounds [of 50 "a * K"]
  have m1: "2 * (a * K) - 50 \<le> 100 * m" and m2: "100 * m \<le> 2 * (a * K) + 50"
    by (simp_all add: m_def)
  have "(50 * (c - 1) + 1) * K \<le> a * K"
    using c1 K by (intro mult_right_mono) simp_all
  then have "100 * ((c - 1) * K) + 2 * K - 50 \<le> 100 * m"
    using m1 by (simp add: algebra_simps)
  with K have lo: "(c - 1) * K < m"
    by simp
  have "a * K \<le> 50 * c * K"
    using c2 K by (intro mult_right_mono) simp_all
  then have "100 * m \<le> 100 * (c * K) + 50"
    using m2 by (simp add: algebra_simps)
  then have hi: "m \<le> c * K"
    by simp
  have "- ((- m) div K) = c"
    using K lo hi by (intro neg_div_ceiling) simp_all
  then have "ceil (PyFloat m (quot_log2 a 50 - 52)) = c"
    unfolding K_def k_def using e by (simp add: ceil_def)
  with val show ?thesis
    by (simp add: c_def)
qed

lemma calculate_pages_needed_exact:
  assumes "1 \<le> start" "start \<le> end" "end < 50 * 2 ^ 48"
  shows "calculate_pages_needed start end = Inr [(start + 49) div 50..(end + 49) div 50]"
proof -
  from assms have s: "1 \<le> start" "start < 50 * 2 ^ 48" and e: "1 \<le> end" "end < 50 * 2 ^ 48"
    by simp_all
  from ceil_true_divide_50 [OF s] ceil_true_divide_50 [OF e] show ?thesis
    by (auto simp: calculate_pages_needed_def)
qed


section \<open>The range extractor on a paged source\<close>

text \<open>
  The delays of a range run are as many as the pages that had a table body.
\<close>

lemma sleeps_simps [simp]:
  "sleeps [] = 0"
  "sleeps (Get u # evs) = sleeps evs"
  "sleeps (Sleep # evs) = Suc (sleeps evs)"
  "sleeps (xs @ ys) = sleeps xs + sleeps ys"
  by (simp_all add: sleeps_def)

lemma range_page_sleeps:
  "sleeps (snd (range_page fetch base_url p acc))
     = (if has_table_body (fetch (page_url base_url p)) then 1 else 0)"
  by (simp add: range_page_def has_table_body_def Let_def split: response.splits option.splits)

lemma range_pages_sleeps:
  "sleeps (snd (range_pages fetch base_url pages acc))
     = length (filter (\<lambda>p. has_table_body (fetch (page_url base_url p))) pages)"
proof (induction pages arbitrary: acc)
  case Nil
  show ?case by simp
next
  case (Cons p pages)
  show ?case
    by (simp add: range_pages_Cons_snd range_page_sleeps Cons.IH del: range_pages.simps(2))
qed

text \<open>
  On a source of distinct, non-empty items served 50 per page, a range that starts on
  the first page is returned exactly: the items at positions start to end, clipped to
  the items there are.
\<close>

lemma scan_links_text_row:
  "name \<noteq> [] \<Longrightarrow> name \<notin> set acc \<Longrightarrow> scan_links acc (filter has_href (text_row name)) = acc @ [name]"
  by (simp add: text_row_def has_href_def get_href_def startswith_slash_def)

lemma scan_rows_text_rows:
  "distinct (acc @ names) \<Longrightarrow> [] \<notin> set names \<Longrightarrow> scan_rows acc (map text_row names) = acc @ names"
proof (induction names arbitrary: acc)
  case Nil
  show ?case by simp
next
  case (Cons n names)
  from Cons.prems have "scan_links acc (filter has_href (text_row n)) = acc @ [n]"
    by (intro scan_links_text_row) auto
  moreover from Cons.prems have "scan_rows (acc @ [n]) (map text_row names) = (acc @ [n]) @ names"
    by (intro Cons.IH) auto
  ultimately show ?case
    by simp
qed

lemma range_page_paged_source:
  assumes "distinct items" "[] \<notin> set items" "1 \<le> p"
  shows "fst (range_page (paged_source items) base_url p (take (nat (p - 1) * 50) items))
           = take (nat p * 50) items"
proof -
  let ?n = "nat (p - 1) * 50"
  have src: "paged_source items (page_url base_url p)
               = Markup \<lparr> channels_tbody = Some (Some (map text_row (take 50 (drop ?n items)))),
                          pagination = None \<rparr>"
    using assms(3) by (auto simp: paged_source_def page_url_def Let_def)
  have split: "take ?n items @ take 50 (drop ?n items) = take (nat p * 50) items"
  proof -
    have "nat p * 50 = ?n + 50"
      using assms(3) by (simp add: nat_diff_distrib algebra_simps)
    then show ?thesis
      by (simp add: take_add)
  qed
  have "distinct (take ?n items @ take 50 (drop ?n items))"
    unfolding split using assms(1) by simp
  moreover have "[] \<notin> set (take 50 (drop ?n items))"
    using assms(2) by (meson in_set_dropD in_set_takeD)
  ultimately have "scan_rows (take ?n items) (map text_row (take 50 (drop ?n items)))
                     = take ?n items @ take 50 (drop ?n items)"
    by (rule scan_rows_text_rows)
  then show ?thesis
    by (simp add: range_page_def src split)
qed

lemma range_pages_paged_source:
  assumes "distinct items" "[] \<notin> set items"
  shows "1 \<le> p \<Longrightarrow> p \<le> k + 1 \<Longrightarrow>
         fst (range_pages (paged_source items) base_url [p..k] (take (nat (p - 1) * 50) items))
           = take (nat k * 50) items"
proof (induction "nat (k + 1 - p)" arbitrary: p)
  case 0
  then have "p = k + 1" by simp
  then show ?case by simp
next
  case (Suc n)
  then have le: "p \<le> k" by linarith
  then have up: "[p..k] = p # [p + 1..k]"
    by (simp add: upto_rec1)
  have step: "fst (range_page (paged_source items) base_url p (take (nat (p - 1) * 50) items))
           = take (nat (p + 1 - 1) * 50) items"
    using range_page_paged_source [OF assms Suc.prems(1), of base_url] by simp
  have "fst (range_pages (paged_source items) base_url [p + 1..k] (take (nat (p + 1 - 1) * 50) items))
           = take (nat k * 50) items"
    using Suc.hyps(2) Suc.prems le by (intro Suc.hyps(1)) simp_all
  then show ?case
    by (simp only: up range_pages_Cons_fst step)
qed

lemma slice_of_take:
  fixes a e N :: nat
  assumes "a \<le> e" "e \<le> N"
  shows "take (min e (length (take N xs)) - a) (drop a (take N xs)) = take (e - a) (drop a xs)"
proof (cases "e \<le> length xs")
  case True
  with assms have m: "min e (length (take N xs)) = e"
    by simp
  have "take (e - a) (drop a (take N xs)) = take (e - a) (take (N - a) (drop a xs))"
    by (simp only: drop_take)
  also have "\<dots> = take (e - a) (drop a xs)"
    using assms by (simp add: min_absorb1)
  finally show ?thesis
    by (simp only: m)
next
  case False
  with assms have all: "take N xs = xs"
    by simp
  from False have m: "min e (length xs) = length xs"
    by simp
  have "take (length xs - a) (drop a xs) = drop a xs"
    by simp
  moreover have "take (e - a) (drop a xs) = drop a xs"
    using False by simp
  ultimately show ?thesis
    by (simp only: all m)
qed

lemma py_slice_window:
  assumes "1 \<le> start" "start \<le> end" "nat end \<le> N"
  shows "(if start - 1 < int (length (take N xs)) then py_slice (take N xs) (start - 1) end else [])
           = take (nat (end - start + 1)) (drop (nat (start - 1)) xs)"
proof (cases "start - 1 < int (length (take N xs))")
  case True
  have "\<not> start - 1 < 0"
    using assms(1) by simp
  moreover have "nat (start - 1) \<le> length (take N xs)"
    using True by linarith
  ultimately have a: "slice_index (length (take N xs)) (start - 1) = nat (start - 1)"
    unfolding slice_index_def by (simp only: if_False min_absorb1)
  have e: "slice_index (length (take N xs)) end = min (nat end) (length (take N xs))"
    using assms(1,2) unfolding slice_index_def by simp
  have d: "nat end - nat (start - 1) = nat (end - start + 1)"
    using assms(1,2) by linarith
  have le: "nat (start - 1) \<le> nat end"
    using assms(1,2) by linarith
  have "py_slice (take N xs) (start - 1) end
          = take (min (nat end) (length (take N xs)) - nat (start - 1))
                 (drop (nat (start - 1)) (take N xs))"
    unfolding py_slice_def Let_def a e ..
  also have "\<dots> = take (nat end - nat (start - 1)) (drop (nat (start - 1)) xs)"
    using le assms(3) by (rule slice_of_take)
  finally show ?thesis
    using True by (simp only: d if_True)
next
  case False
  then have "length (take N xs) \<le> nat (start - 1)"
    by linarith
  moreover have "nat (start - 1) < N"
    using assms by linarith
  ultimately have "length xs \<le> nat (start - 1)"
    by simp
  then have "drop (nat (start - 1)) xs = []"
    by simp
  with False show ?thesis
    by (simp only: if_False take_Nil)
qed

lemma range_first_page_correct:
  assumes "distinct items" "[] \<notin> set items"
    and "1 \<le> start" "start \<le> 50" "start \<le> end" "end < 50 * 2 ^ 48"
  shows "map_sum id usernames_in_range (scrape_usernames_range (paged_source items) start end language)
           = Inr (take (nat (end - start + 1)) (drop (nat (start - 1)) items))"
proof -
  define k where "k = (end + 49) div 50"
  have s1: "(start + 49) div 50 = 1"
    using assms(3,4) by (intro int_div_pos_eq [where r = "start - 1"]) simp_all
  have pages: "calculate_pages_needed start end = Inr [1..k]"
    using calculate_pages_needed_exact [OF assms(3,5,6)] by (simp only: s1 k_def)
  have k1: "1 \<le> k"
    using assms(3,5) pos_imp_zdiv_pos_iff [of 50 "end + 49"] unfolding k_def by simp
  have k2: "end \<le> 50 * k"
    unfolding k_def by presburger
  note k = k1 k2
  have acc: "fst (range_pages (paged_source items) (language_url language) [1..k] [])
               = take (nat k * 50) items"
    using range_pages_paged_source [OF assms(1,2), of 1 k "language_url language"] k by simp
  have kk: "nat end \<le> nat k * 50"
    using k assms(3,5) by linarith
  have "map_sum id usernames_in_range (scrape_usernames_range (paged_source items) start end language)
          = Inr (if start - 1 < int (length (take (nat k * 50) items))
                 then py_slice (take (nat k * 50) items) (start - 1) end else [])"
    unfolding scrape_usernames_range_def pages
    by (simp only: sum.case case_prod_beta Let_def acc map_sum.simps range_run.simps id_apply)
  also have "\<dots> = Inr (take (nat (end - start + 1)) (drop (nat (start - 1)) items))"
    by (rule arg_cong [OF py_slice_window [OF assms(3,5) kk]])
  finally show ?thesis .
qed


section \<open>Which anchor a row gives\<close>

text \<open>
  A row without a qualifying anchor gives no username in either extractor. In range
  mode a row gives the text of its first qualifying anchor when that text is new;
  when it is already in the list the scan goes on to the next qualifying anchor of
  the row.
\<close>

lemma scan_links_no_qualifying:
  "filter qualifies links = [] \<Longrightarrow> scan_links acc links = acc"
  by (induction links) (auto simp: qualifies_def Let_def split: if_splits)

lemma scan_links_first_qualifying:
  "filter qualifies links = link # rest \<Longrightarrow> a_text link \<notin> set acc
   \<Longrightarrow> scan_links acc links = acc @ [a_text link]"
  by (induction links) (auto simp: qualifies_def Let_def split: if_splits)

lemma full_rows_no_qualifying:
  "filter qualifies (filter has_href row) = []
   \<Longrightarrow> full_rows usernames page_usernames (row # rows) = full_rows usernames page_usernames rows"
proof (cases "find has_href row")
  case None
  then show ?thesis by simp
next
  case (Some link)
  then have "link \<in> set (filter has_href row)"
    by (auto simp: find_Some_iff in_set_conv_nth)
  moreover assume "filter qualifies (filter has_href row) = []"
  ultimately have "\<not> qualifies link"
    by (metis filter_empty_conv)
  with Some show ?thesis
    by (auto simp: qualifies_def Let_def)
qed

lemma range_extractor_passes_over_seen_names:
  "scan_rows [''Alice'']
     [[\<lparr> a_text = ''Alice'', a_href = Some ''/Alice'' \<rparr>, \<lparr> a_text = ''Bob'', a_href = Some ''/Bob'' \<rparr>]]
   = [''Alice'', ''Bob'']"
  by code_simp


section \<open>Where the code departs from the specification\<close>

text \<open>
  C1: on a source of sixty items, fifty per page, the range 51 to 51 makes the
  extractor fetch page 2 alone and accumulate the items 51 to 60; it then slices that
  list from index 50 and returns nothing, although the source's item at position 51
  is \<open>u50\<close>.
\<close>

theorem range_51_51_returns_nothing:
  "scrape_usernames_range (paged_source sixty_items) 51 51 None
     = Inr \<lparr> usernames_in_range = [],
             accumulated = [''u50'', ''u51'', ''u52'', ''u53'', ''u54'', ''u55'', ''u56'', ''u57'', ''u58'', ''u59''],
             range_events = [Get (listing_url, Some 2), Sleep] \<rparr>
   \<and> py_slice sixty_items 50 51 = [''u50'']"
  by code_simp

text \<open>
  C2: for a row whose first anchor is the avatar link without text and whose second
  anchor is the channel link, the full extractor takes no username (it looks only at
  the first anchor with an \<^verbatim>\<open>href\<close>), while the range extractor takes the channel
  name; a full run on a source of such rows returns nothing.
\<close>

theorem full_extractor_skips_avatar_rows:
  "full_rows [] [] [image_row ''KaiCenat''] = ([], [])
   \<and> scan_rows [] [image_row ''KaiCenat''] = [''KaiCenat'']
   \<and> returned (scrape_usernames avatar_source listing_url ''twitch_usernames.csv'') = []"
  by code_simp

text \<open>
  C3: for start = end = 14073748835532801 the page calculator returns the page
  281474976710656, while the ceiling of start / 50 is 281474976710657: the float
  quotient has lost the fraction.
\<close>

theorem pages_needed_rounding:
  "calculate_pages_needed 14073748835532801 14073748835532801 = Inr [281474976710656]
   \<and> - ((- 14073748835532801) div 50) = (281474976710657 :: int)"
  by code_simp

text \<open>
  C5: for the range 1 to 100 the page set is pages 1 and 2; when the fetch of page 1
  fails the run performs one delay only, after page 2, and none between the two
  requests.
\<close>

theorem no_delay_after_failed_page:
  "calculate_pages_needed 1 100 = Inr [1, 2]
   \<and> scrape_usernames_range first_page_down 1 100 None
     = Inr \<lparr> usernames_in_range = [''KaiCenat''],
             accumulated = [''KaiCenat''],
             range_events = [Get (listing_url, None), Get (listing_url, Some 2), Sleep] \<rparr>
   \<and> sleeps [Get (listing_url, None), Get (listing_url, Some 2), Sleep] = 1"
  by code_simp

end
